theory Spec2Isabelle
  imports Main "HOL-Library.Multiset"
begin

section \<open>Egyptian Ratscrew: the simulation of \<open>egyptian-ratscrew.ipynb\<close>\<close>

subsection \<open>Cards and the deck\<close>

text \<open>
  \<open>Card = namedtuple('Card', ['face', 'suite'])\<close>. A face is an integer pip
  value or one of the four royal names; \<open>royal\<close> is the dictionary
  \<open>{'Jack': 1, 'Queen': 2, 'King': 3, 'Ace': 4}\<close>.
\<close>

datatype face = Num nat | Jack | Queen | King | Ace

datatype suite = Clubs | Diamonds | Hearts | Spades

datatype card = Card (face: face) (suite: suite)

fun royal :: "face \<Rightarrow> nat option" where
  "royal Jack = Some 1"
| "royal Queen = Some 2"
| "royal King = Some 3"
| "royal Ace = Some 4"
| "royal (Num n) = None"

text \<open>
  \<open>new_deck\<close>: the faces \<open>chain(range(2, 11), royal)\<close>, and for each face the four
  suites in the order of the tuple.
\<close>

definition new_deck :: "card list" where
  "new_deck =
     concat (map (\<lambda>f. map (Card f) [Clubs, Diamonds, Hearts, Spades])
                 (map Num [2 ..< 11] @ [Jack, Queen, King, Ace]))"

subsection \<open>Errors and Python indexing\<close>

text \<open>
  The only exceptions the simulation can raise: \<open>IndexError\<close> from \<open>hands[k]\<close> with
  \<open>k\<close> out of range, and \<open>TypeError\<close> from \<open>hands[None]\<close>. The notebook defines no
  exception class of its own.
\<close>

datatype error = IndexError | TypeError

text \<open>\<open>xs[k]\<close> for a Python integer \<open>k\<close>: a negative index counts from the end.\<close>

definition py_index :: "nat \<Rightarrow> int \<Rightarrow> error + nat" where
  "py_index n k =
     (if 0 \<le> k \<and> k < int n then Inr (nat k)
      else if - int n \<le> k \<and> k < 0 then Inr (nat (int n + k))
      else Inl IndexError)"

subsection \<open>Hands as deques\<close>

text \<open>
  A hand is a \<open>collections.deque\<close>, written here left to right. \<open>hand.append(c)\<close> adds
  on the right and \<open>hand.pop()\<close> removes the rightmost card, so the right end is the top
  of the face-down stack. \<open>d.extendleft(it)\<close> pushes the items of \<open>it\<close> one at a time
  on the left; \<open>reversed(pile)\<close> is \<open>rev pile\<close>.
\<close>

definition extendleft :: "'a list \<Rightarrow> 'a list \<Rightarrow> 'a list" where
  "extendleft d it = fold (\<lambda>x acc. x # acc) it d"

definition reversed :: "'a list \<Rightarrow> 'a list" where
  "reversed xs = rev xs"

text \<open>The cards of a hand read from the top (next to be played) to the bottom.\<close>

definition top_to_bottom :: "'a list \<Rightarrow> 'a list" where
  "top_to_bottom hand = rev hand"

subsection \<open>Dealing\<close>

text \<open>
  \<open>deal\<close> shuffles the deck in place, then walks \<open>cycle(hands)\<close>, popping the last
  card of the deck for each hand in turn until the deck is empty. The shuffle is a
  parameter. With \<open>num_players \<le> 0\<close> the list of hands is empty, \<open>cycle([])\<close> yields
  nothing and the function returns the empty list, leaving the deck untouched.
\<close>

fun deal_loop :: "card list \<Rightarrow> card list list \<Rightarrow> nat \<Rightarrow> card list list" where
  "deal_loop [] hands i = hands"
| "deal_loop (new_card # popped) hands i =
     deal_loop popped (hands[i := hands ! i @ [new_card]]) (Suc i mod length hands)"

definition deal :: "(card list \<Rightarrow> card list) \<Rightarrow> card list \<Rightarrow> int \<Rightarrow> card list list" where
  "deal shuffle deck num_players =
     (let shuffled = shuffle deck;
          hands = replicate (nat num_players) []
      in if hands = [] then [] else deal_loop (rev shuffled) hands 0)"

subsection \<open>The slap detector\<close>

text \<open>
  \<open>pile[-1]\<close>, \<open>pile[-2]\<close>, \<open>pile[-3]\<close> are read only behind a length test, so they
  are in range.
\<close>

definition slappable :: "card list \<Rightarrow> bool" where
  "slappable pile =
     (if length pile > 1 \<and> face (pile ! (length pile - 1)) = face (pile ! (length pile - 2))
      then True
      else if length pile > 2 \<and> face (pile ! (length pile - 1)) = face (pile ! (length pile - 3))
      then True
      else False)"

subsection \<open>The game state\<close>

text \<open>
  The local variables of \<open>simulate_game\<close>. The slap arbiter \<open>slap\<close> is a callable
  without arguments whose answers may change from call to call (the notebook's draws
  from a random generator): it is a function from its hidden state to the answer and
  the next hidden state, and the hidden state is carried in the game state.
\<close>

record 's game =
  hands :: "card list list"
  pile :: "card list"
  chances :: nat
  challenger :: "nat option"
  arbiter :: 's

type_synonym 's slap = "'s \<Rightarrow> int \<times> 's"

text \<open>\<open>hands[k].extendleft(reversed(pile)); pile.clear()\<close>\<close>

definition take_pile :: "nat \<Rightarrow> 's game \<Rightarrow> 's game" where
  "take_pile k g =
     g\<lparr>hands := (hands g)[k := extendleft (hands g ! k) (reversed (pile g))], pile := []\<rparr>"

text \<open>\<open>new_card = hand.pop(); pile.append(new_card)\<close> for \<open>hand = hands[i]\<close>\<close>

definition play_card :: "nat \<Rightarrow> 's game \<Rightarrow> 's game" where
  "play_card i g =
     g\<lparr>hands := (hands g)[i := butlast (hands g ! i)], pile := pile g @ [last (hands g ! i)]\<rparr>"

subsection \<open>One chance card of a challenge\<close>

text \<open>
  The body of \<open>while chances > 0 and hand\<close>. The result says whether the loop was left
  by \<open>break\<close>.
\<close>

definition chance_card :: "'s slap \<Rightarrow> nat \<Rightarrow> 's game \<Rightarrow> error + (bool \<times> 's game)" where
  "chance_card slap i g =
     (let new_card = last (hands g ! i);
          g1 = (play_card i g)\<lparr>chances := chances g - 1\<rparr>
      in if slappable (pile g1) then
           (case slap (arbiter g1) of (slapper, a') \<Rightarrow>
              (case py_index (length (hands g1)) slapper of
                 Inl e \<Rightarrow> Inl e
               | Inr k \<Rightarrow> Inr (True, (take_pile k (g1\<lparr>arbiter := a'\<rparr>))\<lparr>chances := 0\<rparr>)))
         else (case royal (face new_card) of
                 Some v \<Rightarrow> Inr (True, g1\<lparr>challenger := Some i, chances := v\<rparr>)
               | None \<Rightarrow> Inr (False, g1)))"

text \<open>
  The loop itself. \<open>hand\<close> is \<open>hands[hand_index]\<close>, bound by the caller, so the index
  is in range whenever the loop runs.
\<close>

function challenge_loop :: "'s slap \<Rightarrow> nat \<Rightarrow> 's game \<Rightarrow> error + 's game" where
  "challenge_loop slap i g =
     (if i < length (hands g) \<and> chances g > 0 \<and> hands g ! i \<noteq> [] then
        (case chance_card slap i g of
           Inl e \<Rightarrow> Inl e
         | Inr (True, g') \<Rightarrow> Inr g'
         | Inr (False, g') \<Rightarrow> challenge_loop slap i g')
      else Inr g)"
  by pat_completeness auto
termination
  apply (relation "measure (\<lambda>(slap, i, g). length (hands g ! i))")
   apply simp
  apply (auto simp: chance_card_def play_card_def Let_def split: if_splits prod.splits sum.splits option.splits)
  done

text \<open>The \<open>if chances == 0\<close> after the loop: \<open>hands[challenger]\<close> takes the pile.\<close>

definition resolve :: "'s game \<Rightarrow> error + 's game" where
  "resolve g =
     (if chances g = 0 then
        (case challenger g of
           None \<Rightarrow> Inl TypeError
         | Some c \<Rightarrow>
             (case py_index (length (hands g)) (int c) of
                Inl e \<Rightarrow> Inl e
              | Inr k \<Rightarrow> Inr ((take_pile k g)\<lparr>challenger := None\<rparr>)))
      else Inr g)"

text \<open>The \<open>else\<close> branch of a turn: the loop, then the test after it.\<close>

definition challenge_turn :: "'s slap \<Rightarrow> nat \<Rightarrow> 's game \<Rightarrow> error + 's game" where
  "challenge_turn slap i g =
     (case challenge_loop slap i g of
        Inl e \<Rightarrow> Inl e
      | Inr g2 \<Rightarrow> resolve g2)"

subsection \<open>One turn\<close>

text \<open>The termination test at the top of the loop body, and the value returned.\<close>

definition finished :: "'s game \<Rightarrow> bool" where
  "finished g = (length (filter (\<lambda>hand. length hand > 0) (hands g)) = 1)"

text \<open>\<open>np.argmax\<close>: the index of the first largest entry.\<close>

definition argmax :: "nat list \<Rightarrow> nat" where
  "argmax xs = length (takeWhile (\<lambda>x. x \<noteq> fold max xs 0) xs)"

definition winner :: "'s game \<Rightarrow> nat" where
  "winner g = argmax (map length (hands g))"

text \<open>The rest of the loop body, from \<open>if not hand: continue\<close> on.\<close>

definition turn_body :: "'s slap \<Rightarrow> nat \<Rightarrow> 's game \<Rightarrow> error + 's game" where
  "turn_body slap hand_index g =
     (if hands g ! hand_index = [] then Inr g
      else if challenger g = None then
        (let new_card = last (hands g ! hand_index);
             g1 = play_card hand_index g
         in case royal (face new_card) of
              Some v \<Rightarrow> Inr (g1\<lparr>challenger := Some hand_index, chances := v\<rparr>)
            | None \<Rightarrow> Inr g1)
      else challenge_turn slap hand_index g)"

subsection \<open>The game\<close>

text \<open>
  \<open>for turn, hand_index in enumerate(cycle(range(num_players)), start=1)\<close>: the loop
  has no bound, so it is a partial function; \<open>None\<close> is a run that never returns.
  The result of a run that ends is the raised error or the returned pair
  \<open>(turn, winner)\<close>; the final state is returned with it for the statements below.
\<close>

partial_function (option) turn_loop ::
  "'s slap \<Rightarrow> nat \<Rightarrow> nat \<Rightarrow> 's game \<Rightarrow> (error + (nat \<times> nat) \<times> 's game) option" where
  "turn_loop slap n turn g =
     (if finished g then Some (Inr ((turn, winner g), g))
      else (case turn_body slap ((turn - 1) mod n) g of
              Inl e \<Rightarrow> Some (Inl e)
            | Inr g' \<Rightarrow> turn_loop slap n (Suc turn) g'))"

definition initial_game :: "(card list \<Rightarrow> card list) \<Rightarrow> 's \<Rightarrow> int \<Rightarrow> 's game" where
  "initial_game shuffle a0 num_players =
     \<lparr>hands = deal shuffle new_deck num_players, pile = [], chances = 0,
      challenger = None, arbiter = a0\<rparr>"

text \<open>
  \<open>simulate_game\<close>. With \<open>num_players \<le> 0\<close> the iterator \<open>cycle(range(num_players))\<close>
  is empty, the loop body never runs and the function falls off its end, returning
  \<open>None\<close>: that is \<open>Inr None\<close> here.
\<close>

definition simulate_game ::
  "(card list \<Rightarrow> card list) \<Rightarrow> 's slap \<Rightarrow> 's \<Rightarrow> int \<Rightarrow> (error + (nat \<times> nat) option) option" where
  "simulate_game shuffle slap a0 num_players =
     (if num_players \<le> 0 then Some (Inr None)
      else map_option (map_sum id (\<lambda>(r, g). Some r))
             (turn_loop slap (nat num_players) 1 (initial_game shuffle a0 num_players)))"

section \<open>Reachable states\<close>

text \<open>All the cards of a state: those of the hands and those of the pile.\<close>

definition cards_of :: "'s game \<Rightarrow> card multiset" where
  "cards_of g = mset (concat (hands g)) + mset (pile g)"

text \<open>
  The states a run goes through. \<open>Turn_start\<close> is the top of the loop body at turn
  \<open>t\<close>; \<open>Loop_head\<close> is the test of the \<open>while\<close> loop of a challenge;
  \<open>Loop_left\<close> is the state just after a \<open>break\<close>, before the test that follows
  the loop. A turn that ends leads to the next \<open>Turn_start\<close>.
\<close>

datatype phase = Turn_start | Loop_head | Loop_left

inductive reach :: "'s slap \<Rightarrow> nat \<Rightarrow> 's game \<Rightarrow> nat \<times> phase \<times> 's game \<Rightarrow> bool"
  for slap :: "'s slap" and n :: nat and g0 :: "'s game" where
  start: "reach slap n g0 (1, Turn_start, g0)"
| turn: "reach slap n g0 (t, Turn_start, g) \<Longrightarrow> \<not> finished g \<Longrightarrow>
         turn_body slap ((t - 1) mod n) g = Inr g' \<Longrightarrow>
         reach slap n g0 (Suc t, Turn_start, g')"
| enter: "reach slap n g0 (t, Turn_start, g) \<Longrightarrow> \<not> finished g \<Longrightarrow>
          hands g ! ((t - 1) mod n) \<noteq> [] \<Longrightarrow> challenger g \<noteq> None \<Longrightarrow>
          reach slap n g0 (t, Loop_head, g)"
| chance: "reach slap n g0 (t, Loop_head, g) \<Longrightarrow> 0 < chances g \<Longrightarrow>
           hands g ! ((t - 1) mod n) \<noteq> [] \<Longrightarrow>
           chance_card slap ((t - 1) mod n) g = Inr (left, g') \<Longrightarrow>
           reach slap n g0 (t, if left then Loop_left else Loop_head, g')"

section \<open>Example inputs\<close>

text \<open>An arbiter that always names the same player.\<close>

definition always :: "int \<Rightarrow> 's slap" where
  "always k s = (k, s)"

text \<open>States in the middle of a game, for single turns.\<close>

definition slap_example :: "unit game" where
  "slap_example =
     \<lparr>hands = [[Card (Num 3) Clubs, Card (Num 7) Hearts], [Card (Num 5) Spades, Card King Diamonds]],
      pile = [Card (Num 2) Clubs, Card King Hearts], chances = 3, challenger = Some 0,
      arbiter = ()\<rparr>"

definition king_example :: "unit game" where
  "king_example =
     \<lparr>hands = [[Card (Num 3) Clubs, Card (Num 7) Hearts],
               [Card (Num 5) Spades, Card (Num 9) Hearts, Card (Num 9) Diamonds]],
      pile = [Card (Num 2) Clubs, Card King Hearts], chances = 3, challenger = Some 0,
      arbiter = ()\<rparr>"

definition ace_example :: "unit game" where
  "ace_example =
     \<lparr>hands = [[Card (Num 3) Clubs],
               [Card (Num 8) Clubs, Card Queen Diamonds, Card (Num 5) Spades]],
      pile = [Card Ace Clubs], chances = 4, challenger = Some 0, arbiter = ()\<rparr>"

definition jack_start :: "unit game" where
  "jack_start =
     \<lparr>hands = [[Card (Num 3) Clubs, Card Jack Clubs],
               [Card (Num 5) Spades, Card (Num 9) Diamonds]],
      pile = [], chances = 0, challenger = None, arbiter = ()\<rparr>"

definition jack_example :: "unit game" where
  "jack_example =
     \<lparr>hands = [[Card (Num 3) Clubs], [Card (Num 5) Spades, Card (Num 9) Diamonds]],
      pile = [Card Jack Clubs], chances = 1, challenger = Some 0, arbiter = ()\<rparr>"

definition transfer_example :: "unit game" where
  "transfer_example =
     \<lparr>hands = [[Card (Num 3) Clubs, Card (Num 4) Clubs], [Card (Num 5) Spades]],
      pile = [Card Jack Clubs, Card (Num 9) Diamonds], chances = 0, challenger = Some 0,
      arbiter = ()\<rparr>"

definition normal_example :: "unit game" where
  "normal_example =
     \<lparr>hands = [[Card (Num 3) Clubs, Card (Num 7) Hearts], [Card (Num 5) Spades]],
      pile = [Card (Num 7) Diamonds], chances = 0, challenger = None, arbiter = ()\<rparr>"

text \<open>
  A shuffle that deals all sixteen royals to player 0 and only pip cards to player 1,
  the second state of that game and its last state.
\<close>

definition short_shuffle :: "card list \<Rightarrow> card list" where
  "short_shuffle deck =
     [Card (Num 2) Clubs, Card Ace Spades, Card (Num 3) Clubs,
      Card Ace Hearts, Card (Num 4) Clubs, Card Ace Diamonds,
      Card (Num 5) Clubs, Card Ace Clubs, Card (Num 6) Clubs,
      Card King Spades, Card (Num 7) Clubs, Card King Hearts,
      Card (Num 8) Clubs, Card King Diamonds, Card (Num 9) Clubs,
      Card King Clubs, Card (Num 10) Clubs, Card Queen Spades,
      Card (Num 2) Diamonds, Card Queen Hearts, Card (Num 3) Diamonds,
      Card Queen Diamonds, Card (Num 4) Diamonds, Card Queen Clubs,
      Card (Num 5) Diamonds, Card Jack Spades, Card (Num 6) Diamonds,
      Card Jack Hearts, Card (Num 7) Diamonds, Card Jack Diamonds,
      Card (Num 8) Diamonds, Card Jack Clubs, Card (Num 9) Diamonds,
      Card (Num 10) Spades, Card (Num 10) Diamonds, Card (Num 10) Hearts,
      Card (Num 2) Hearts, Card (Num 9) Spades, Card (Num 3) Hearts,
      Card (Num 8) Spades, Card (Num 4) Hearts, Card (Num 7) Spades,
      Card (Num 5) Hearts, Card (Num 6) Spades, Card (Num 6) Hearts,
      Card (Num 5) Spades, Card (Num 7) Hearts, Card (Num 4) Spades,
      Card (Num 8) Hearts, Card (Num 3) Spades, Card (Num 9) Hearts,
      Card (Num 2) Spades]"

definition short_second :: "unit game" where
  "short_second =
   \<lparr>hands =
     [[Card (Num 2) Spades, Card (Num 3) Spades, Card (Num 4) Spades,
      Card (Num 5) Spades, Card (Num 6) Spades, Card (Num 7) Spades,
      Card (Num 8) Spades, Card (Num 9) Spades, Card (Num 10) Hearts,
      Card (Num 10) Spades, Card Jack Clubs, Card Jack Diamonds,
      Card Jack Hearts, Card Jack Spades, Card Queen Clubs,
      Card Queen Diamonds, Card Queen Hearts, Card Queen Spades,
      Card King Clubs, Card King Diamonds, Card King Hearts,
      Card King Spades, Card Ace Clubs, Card Ace Diamonds,
      Card Ace Hearts],
      [Card (Num 9) Hearts, Card (Num 8) Hearts, Card (Num 7) Hearts,
      Card (Num 6) Hearts, Card (Num 5) Hearts, Card (Num 4) Hearts,
      Card (Num 3) Hearts, Card (Num 2) Hearts, Card (Num 10) Diamonds,
      Card (Num 9) Diamonds, Card (Num 8) Diamonds, Card (Num 7) Diamonds,
      Card (Num 6) Diamonds, Card (Num 5) Diamonds, Card (Num 4) Diamonds,
      Card (Num 3) Diamonds, Card (Num 2) Diamonds, Card (Num 10) Clubs,
      Card (Num 9) Clubs, Card (Num 8) Clubs, Card (Num 7) Clubs,
      Card (Num 6) Clubs, Card (Num 5) Clubs, Card (Num 4) Clubs,
      Card (Num 3) Clubs, Card (Num 2) Clubs]],
   pile = [Card Ace Spades],
   chances = 4, challenger = Some 0, arbiter = ()\<rparr>"

definition short_final :: "unit game" where
  "short_final =
   \<lparr>hands =
     [[Card King Diamonds, Card (Num 6) Hearts, Card (Num 7) Hearts,
      Card (Num 8) Hearts, Card King Hearts, Card (Num 3) Hearts,
      Card (Num 4) Hearts, Card (Num 5) Hearts, Card King Spades,
      Card (Num 9) Diamonds, Card (Num 10) Diamonds, Card (Num 2) Hearts,
      Card Ace Clubs, Card (Num 5) Diamonds, Card (Num 6) Diamonds,
      Card (Num 7) Diamonds, Card (Num 8) Diamonds, Card Ace Diamonds,
      Card (Num 10) Clubs, Card (Num 2) Diamonds, Card (Num 3) Diamonds,
      Card (Num 4) Diamonds, Card Ace Hearts, Card (Num 6) Clubs,
      Card (Num 7) Clubs, Card (Num 8) Clubs, Card (Num 9) Clubs,
      Card Ace Spades, Card (Num 2) Clubs, Card (Num 3) Clubs,
      Card (Num 4) Clubs, Card (Num 5) Clubs, Card (Num 2) Spades,
      Card (Num 3) Spades, Card (Num 4) Spades, Card (Num 5) Spades,
      Card (Num 6) Spades, Card (Num 7) Spades, Card (Num 8) Spades,
      Card (Num 9) Spades, Card (Num 10) Hearts, Card (Num 10) Spades,
      Card Jack Clubs, Card Jack Diamonds, Card Jack Hearts,
      Card Jack Spades, Card Queen Clubs, Card Queen Diamonds,
      Card Queen Hearts, Card Queen Spades],
      []],
   pile = [Card King Clubs, Card (Num 9) Hearts],
   chances = 2, challenger = Some 0, arbiter = ()\<rparr>"

section \<open>Properties\<close>

subsection \<open>Deques and single steps\<close>

lemma extendleft_reversed [simp]: "extendleft d (reversed xs) = xs @ d"
  by (simp add: extendleft_def reversed_def fold_Cons_rev)

lemma take_pile_simps [simp]:
  "hands (take_pile k g) = (hands g)[k := pile g @ hands g ! k]"
  "pile (take_pile k g) = []"
  "chances (take_pile k g) = chances g"
  "challenger (take_pile k g) = challenger g"
  "arbiter (take_pile k g) = arbiter g"
  by (simp_all add: take_pile_def)

lemma play_card_simps [simp]:
  "hands (play_card i g) = (hands g)[i := butlast (hands g ! i)]"
  "pile (play_card i g) = pile g @ [last (hands g ! i)]"
  "chances (play_card i g) = chances g"
  "challenger (play_card i g) = challenger g"
  "arbiter (play_card i g) = arbiter g"
  by (simp_all add: play_card_def)

lemma pile_cases:
  obtains "p = []" | a where "p = [a]" | a b where "p = [b, a]"
  | r c b a where "p = r @ [c, b, a]"
proof (cases "rev p")
  case Nil
  then show ?thesis using that by simp
next
  case (Cons a r1)
  note A = Cons
  show ?thesis
  proof (cases r1)
    case Nil
    with A have "p = [a]" by (metis rev_singleton_conv)
    then show ?thesis using that by simp
  next
    case (Cons b r2)
    note B = Cons
    show ?thesis
    proof (cases r2)
      case Nil
      with A B have "rev (rev p) = rev [a, b]" by simp
      then have "p = [b, a]" by simp
      then show ?thesis using that by simp
    next
      case (Cons c r3)
      with A B have "rev (rev p) = rev (a # b # c # r3)" by simp
      then have "p = rev r3 @ [c, b, a]" by simp
      then show ?thesis using that by simp
    qed
  qed
qed

text \<open>
  Claim C8. A pile is slappable exactly when it has at least two cards and the top two
  share a face, or at least three cards and the top and the third from the top share a
  face. A pile of fewer than two cards is never slappable, and the answer does not
  depend on the suites. The detector is a function of the pile alone.
\<close>

theorem slappable_correct:
  "(slappable p \<longleftrightarrow>
      (length p \<ge> 2 \<and> face (top_to_bottom p ! 0) = face (top_to_bottom p ! 1)) \<or>
      (length p \<ge> 3 \<and> face (top_to_bottom p ! 0) = face (top_to_bottom p ! 2)))
   \<and> (length p < 2 \<longrightarrow> \<not> slappable p)
   \<and> slappable (map (\<lambda>c. Card (face c) (resuit c)) p) = slappable p"
proof (cases p rule: pile_cases)
  case 1
  then show ?thesis by (simp add: slappable_def)
next
  case (2 a)
  then show ?thesis by (simp add: slappable_def)
next
  case (3 a b)
  then show ?thesis by (simp add: slappable_def top_to_bottom_def)
next
  case (4 r c b a)
  then show ?thesis by (simp add: slappable_def top_to_bottom_def nth_append)
qed

theorem slappable_correct_witness:
  "length [Card Queen Diamonds] < 2 \<and> \<not> slappable [Card Queen Diamonds]
   \<and> slappable [Card Queen Diamonds, Card (Num 2) Spades, Card Queen Hearts]"
  using slappable_correct [of "[Card Queen Diamonds]"]
    slappable_correct [of "[Card Queen Diamonds, Card (Num 2) Spades, Card Queen Hearts]"]
  by (simp add: top_to_bottom_def)

lemma py_index_nat [simp]: "c < n \<Longrightarrow> py_index n (int c) = Inr c"
  by (simp add: py_index_def)

lemma py_index_range: "py_index n k = Inr j \<Longrightarrow> j < n"
  by (auto simp: py_index_def split: if_splits)

lemma royal_pos: "royal f = Some v \<Longrightarrow> 0 < v"
  by (cases f) auto


lemma chance_card_royal:
  assumes "\<not> slappable (pile g @ [last (hands g ! i)])"
    and "royal (face (last (hands g ! i))) = Some v"
  shows "chance_card slap i g = Inr (True, (play_card i g)\<lparr>challenger := Some i, chances := v\<rparr>)"
  using assms by (simp add: chance_card_def Let_def play_card_def)

lemma chance_card_plain:
  assumes "\<not> slappable (pile g @ [last (hands g ! i)])"
    and "royal (face (last (hands g ! i))) = None"
  shows "chance_card slap i g = Inr (False, (play_card i g)\<lparr>chances := chances g - 1\<rparr>)"
  using assms by (simp add: chance_card_def Let_def)

lemma resolve_after_slap:
  assumes "challenger g = Some c" "c < length (hands g)" "chances g = 0" "pile g = []"
  shows "resolve g = Inr (g\<lparr>challenger := None\<rparr>)"
  using assms by (simp add: resolve_def take_pile_def)

lemma turn_body_challenge:
  "hands g ! i \<noteq> [] \<Longrightarrow> challenger g = Some c \<Longrightarrow> turn_body slap i g = challenge_turn slap i g"
  by (simp add: turn_body_def)

lemma challenge_loop_exhaust:
  assumes "i < length (hands g)" and "hands g ! i = rest @ rev cs"
    and "chances g = length cs"
    and "\<forall>k < length cs. \<not> slappable (pile g @ take (Suc k) cs) \<and> royal (face (cs ! k)) = None"
  shows "challenge_loop slap i g =
           Inr (g\<lparr>hands := (hands g)[i := rest], pile := pile g @ cs, chances := 0\<rparr>)"
  using assms
proof (induction cs arbitrary: g)
  case Nil
  then have "(hands g)[i := rest] = hands g"
    by (metis append_Nil2 list_update_id rev.simps(1))
  with Nil show ?case by simp
next
  case (Cons x cs)
  let ?g1 = "(play_card i g)\<lparr>chances := chances g - 1\<rparr>"
  from Cons.prems(2) have hand: "last (hands g ! i) = x" "butlast (hands g ! i) = rest @ rev cs"
    "hands g ! i \<noteq> []"
    by (simp_all add: butlast_append)
  from Cons.prems(4) have "\<not> slappable (pile g @ take (Suc 0) (x # cs)) \<and> royal (face ((x # cs) ! 0)) = None"
    by (metis length_greater_0_conv list.distinct(1))
  then have first: "\<not> slappable (pile g @ [last (hands g ! i)])"
      "royal (face (last (hands g ! i))) = None"
    using hand by simp_all
  have step: "chance_card slap i g = Inr (False, ?g1)"
    using first by (rule chance_card_plain)
  have rest: "\<forall>k < length cs. \<not> slappable (pile ?g1 @ take (Suc k) cs) \<and> royal (face (cs ! k)) = None"
  proof (intro allI impI)
    fix k assume "k < length cs"
    then have "Suc k < length (x # cs)" by simp
    with Cons.prems(4) have "\<not> slappable (pile g @ take (Suc (Suc k)) (x # cs)) \<and> royal (face ((x # cs) ! Suc k)) = None"
      by blast
    then show "\<not> slappable (pile ?g1 @ take (Suc k) cs) \<and> royal (face (cs ! k)) = None"
      using hand by simp
  qed
  have "challenge_loop slap i ?g1 =
          Inr (?g1\<lparr>hands := (hands ?g1)[i := rest], pile := pile ?g1 @ cs, chances := 0\<rparr>)"
    using Cons.prems(1,3) hand rest by (intro Cons.IH) simp_all
  moreover have "challenge_loop slap i g = challenge_loop slap i ?g1"
    using Cons.prems(1,3) hand(3) step by simp
  ultimately show ?case
    using hand by (simp add: play_card_def)
qed

lemma challenge_loop_plain:
  assumes "i < length (hands g)" and "hands g ! i = rest @ rev cs"
    and "length cs \<le> chances g"
    and "\<forall>k < length cs. \<not> slappable (pile g @ take (Suc k) cs) \<and> royal (face (cs ! k)) = None"
  shows "challenge_loop slap i g =
           challenge_loop slap i
             (g\<lparr>hands := (hands g)[i := rest], pile := pile g @ cs,
                chances := chances g - length cs\<rparr>)"
  using assms
proof (induction cs arbitrary: g)
  case Nil
  then have "(hands g)[i := rest] = hands g"
    by (metis append_Nil2 list_update_id rev.simps(1))
  then show ?case by simp
next
  case (Cons x cs)
  let ?g1 = "(play_card i g)\<lparr>chances := chances g - 1\<rparr>"
  from Cons.prems(2) have hand: "last (hands g ! i) = x" "butlast (hands g ! i) = rest @ rev cs"
    "hands g ! i \<noteq> []"
    by (simp_all add: butlast_append)
  from Cons.prems(3) have pos: "0 < chances g"
    by simp
  from Cons.prems(4) have "\<not> slappable (pile g @ take (Suc 0) (x # cs)) \<and> royal (face ((x # cs) ! 0)) = None"
    by (metis length_greater_0_conv list.distinct(1))
  then have first: "\<not> slappable (pile g @ [last (hands g ! i)])"
      "royal (face (last (hands g ! i))) = None"
    using hand by simp_all
  have step: "chance_card slap i g = Inr (False, ?g1)"
    using first by (rule chance_card_plain)
  have rest: "\<forall>k < length cs. \<not> slappable (pile ?g1 @ take (Suc k) cs) \<and> royal (face (cs ! k)) = None"
  proof (intro allI impI)
    fix k assume "k < length cs"
    then have "Suc k < length (x # cs)" by simp
    with Cons.prems(4) have "\<not> slappable (pile g @ take (Suc (Suc k)) (x # cs)) \<and> royal (face ((x # cs) ! Suc k)) = None"
      by blast
    then show "\<not> slappable (pile ?g1 @ take (Suc k) cs) \<and> royal (face (cs ! k)) = None"
      using hand by simp
  qed
  have "challenge_loop slap i ?g1 =
          challenge_loop slap i
            (?g1\<lparr>hands := (hands ?g1)[i := rest], pile := pile ?g1 @ cs,
                  chances := chances ?g1 - length cs\<rparr>)"
    using Cons.prems(1,3) hand rest by (intro Cons.IH) simp_all
  moreover have "challenge_loop slap i g = challenge_loop slap i ?g1"
    using Cons.prems(1) pos hand(3) step by (subst challenge_loop.simps) simp
  ultimately show ?case
    using hand by (simp add: play_card_def)
qed

text \<open>
  Claim C4. In a challenge, the slap test comes first after each chance card. The
  challenged player plays the cards \<open>cs\<close> (any number of them, none a royal, none
  making the pile slappable) and then the card \<open>x\<close>, with a chance still owed for it.
  If the pile is slappable after \<open>x\<close>, the whole pile goes to the hand the arbiter
  names (any valid index, whatever that hand holds), the pile is emptied, \<open>chances\<close>
  is 0 and the challenger is \<open>None\<close> at the end of the turn, however many chances
  were still owed and whether or not \<open>x\<close> is a royal.
\<close>

theorem slap_interrupts_challenge:
  assumes "i < length (hands g)" and "hands g ! i = rest @ x # rev cs"
    and "length cs < chances g"
    and "\<forall>j < length cs. \<not> slappable (pile g @ take (Suc j) cs) \<and> royal (face (cs ! j)) = None"
    and "slappable (pile g @ cs @ [x])"
    and "challenger g = Some c" and "c < length (hands g)"
    and "slap (arbiter g) = (slapper, a')"
    and "py_index (length (hands g)) slapper = Inr k"
  shows "turn_body slap i g =
           Inr (g\<lparr>hands := ((hands g)[i := rest])
                         [k := (pile g @ cs @ [x]) @ (hands g)[i := rest] ! k],
                  pile := [], chances := 0, challenger := None, arbiter := a'\<rparr>)"
proof -
  let ?g2 = "g\<lparr>hands := (hands g)[i := rest @ [x]], pile := pile g @ cs,
                chances := chances g - length cs\<rparr>"
  let ?g3 = "g\<lparr>hands := ((hands g)[i := rest])
                         [k := (pile g @ cs @ [x]) @ (hands g)[i := rest] ! k],
                  pile := [], chances := 0, arbiter := a'\<rparr>"
  from assms(2) have hand: "hands g ! i = (rest @ [x]) @ rev cs" "hands g ! i \<noteq> []"
    by simp_all
  from assms(3) have "length cs \<le> chances g"
    by simp
  with assms(1) hand(1) have "challenge_loop slap i g = challenge_loop slap i ?g2"
    using assms(4) by (rule challenge_loop_plain)
  moreover have "chance_card slap i ?g2 = Inr (True, ?g3)"
    using assms(1,5,8,9)
    by (simp add: chance_card_def Let_def take_pile_def play_card_def)
  then have "challenge_loop slap i ?g2 = Inr ?g3"
    using assms(1,3) by (subst challenge_loop.simps) simp
  moreover from assms(6,7) have "challenger ?g3 = Some c" "c < length (hands ?g3)"
    by simp_all
  then have "resolve ?g3 = Inr (?g3\<lparr>challenger := None\<rparr>)"
    by (rule resolve_after_slap) simp_all
  ultimately have "challenge_turn slap i g = Inr (?g3\<lparr>challenger := None\<rparr>)"
    by (simp add: challenge_turn_def)
  with hand(2) assms(6) show ?thesis
    by (simp add: turn_body_challenge)
qed

text \<open>
  Claim C5. The challenged player plays the cards \<open>cs\<close> (none a royal, none making
  the pile slappable) and then a royal \<open>x\<close> that does not make the pile slappable.
  Then the player of \<open>x\<close> is the challenger, \<open>chances\<close> is the table value of the
  royal (1, 2, 3, 4 for Jack, Queen, King, Ace), the player plays no further card, the
  challenge stays open and no hand receives a card: the pile keeps all the cards.
\<close>

theorem royal_chance_card_takes_over:
  assumes "i < length (hands g)" and "hands g ! i = rest @ x # rev cs"
    and "length cs < chances g"
    and "\<forall>j < length cs. \<not> slappable (pile g @ take (Suc j) cs) \<and> royal (face (cs ! j)) = None"
    and "\<not> slappable (pile g @ cs @ [x])"
    and "royal (face x) = Some v"
    and "challenger g = Some c"
  shows "turn_body slap i g =
           Inr (g\<lparr>hands := (hands g)[i := rest], pile := pile g @ cs @ [x],
                  chances := v, challenger := Some i\<rparr>)
         \<and> v = (case face x of
                  Jack \<Rightarrow> 1 | Queen \<Rightarrow> 2 | King \<Rightarrow> 3 | Ace \<Rightarrow> 4 | Num n \<Rightarrow> 0)
         \<and> 0 < v"
proof -
  let ?g2 = "g\<lparr>hands := (hands g)[i := rest @ [x]], pile := pile g @ cs,
                chances := chances g - length cs\<rparr>"
  let ?g3 = "g\<lparr>hands := (hands g)[i := rest], pile := pile g @ cs @ [x],
                  chances := v, challenger := Some i\<rparr>"
  from assms(2) have hand: "hands g ! i = (rest @ [x]) @ rev cs" "hands g ! i \<noteq> []"
    by simp_all
  from assms(3) have "length cs \<le> chances g"
    by simp
  with assms(1) hand(1) have "challenge_loop slap i g = challenge_loop slap i ?g2"
    using assms(4) by (rule challenge_loop_plain)
  moreover have "chance_card slap i ?g2 = Inr (True, ?g3)"
    using assms(1,5,6)
    by (simp add: chance_card_def Let_def play_card_def)
  then have "challenge_loop slap i ?g2 = Inr ?g3"
    using assms(1,3) by (subst challenge_loop.simps) simp
  moreover have "resolve ?g3 = Inr ?g3"
    using royal_pos [OF assms(6)] by (simp add: resolve_def)
  ultimately have "challenge_turn slap i g = Inr ?g3"
    by (simp add: challenge_turn_def)
  moreover have "v = (case face x of
                  Jack \<Rightarrow> 1 | Queen \<Rightarrow> 2 | King \<Rightarrow> 3 | Ace \<Rightarrow> 4 | Num n \<Rightarrow> 0)"
    using assms(6) by (cases "face x") auto
  ultimately show ?thesis
    using hand(2) assms(7) royal_pos [OF assms(6)]
    by (simp add: turn_body_challenge)
qed

text \<open>
  Claim C6. When the challenged player plays the \<open>chances\<close> cards \<open>cs\<close> that are
  owed, none of them a royal and none making the pile slappable, the whole pile goes to
  the bottom of the challenger's hand, the pile is emptied, \<open>chances\<close> is 0 and the
  challenger is \<open>None\<close>. The game then goes on with the test for the end and the turn
  of the player after the one who just played, at the next turn number. A Jack played
  with no challenge open makes its player the challenger with one chance owed, so the
  pile of a Jack answered by one plain card goes to the player of the Jack.
\<close>

theorem challenge_resolved_by_exhaustion:
  assumes "i < length (hands g)" and "hands g ! i = rest @ rev cs" and "cs \<noteq> []"
    and "chances g = length cs"
    and "\<forall>k < length cs. \<not> slappable (pile g @ take (Suc k) cs) \<and> royal (face (cs ! k)) = None"
    and "challenger g = Some c" and "c < length (hands g)"
    and "after = g\<lparr>hands := ((hands g)[i := rest])[c := (pile g @ cs) @ (hands g)[i := rest] ! c],
                  pile := [], chances := 0, challenger := None\<rparr>"
  shows "turn_body slap i g = Inr after
         \<and> (0 < turn \<and> i = (turn - 1) mod n \<and> \<not> finished g \<longrightarrow>
              turn_loop slap n turn g =
                (if finished after then Some (Inr ((Suc turn, winner after), after))
                 else case turn_body slap (Suc i mod n) after of
                        Inl e \<Rightarrow> Some (Inl e)
                      | Inr g4 \<Rightarrow> turn_loop slap n (Suc (Suc turn)) g4))
         \<and> (challenger before = None \<and> hands before ! c \<noteq> [] \<and> face (last (hands before ! c)) = Jack \<longrightarrow>
              turn_body slap c before = Inr ((play_card c before)\<lparr>challenger := Some c, chances := 1\<rparr>))"
proof (intro conjI impI)
  let ?g2 = "g\<lparr>hands := (hands g)[i := rest], pile := pile g @ cs, chances := 0\<rparr>"
  have "challenge_loop slap i g = Inr ?g2"
    using assms(1,2,4,5) by (rule challenge_loop_exhaust)
  moreover have "resolve ?g2 = Inr after"
    using assms(6,7,8) by (simp add: resolve_def take_pile_def)
  ultimately have "challenge_turn slap i g = Inr after"
    by (simp add: challenge_turn_def)
  moreover from assms(2,3) have "hands g ! i \<noteq> []" by simp
  ultimately show body: "turn_body slap i g = Inr after"
    using assms(6) by (simp add: turn_body_challenge)
  show "turn_loop slap n turn g =
                (if finished after then Some (Inr ((Suc turn, winner after), after))
                 else case turn_body slap (Suc i mod n) after of
                        Inl e \<Rightarrow> Some (Inl e)
                      | Inr g4 \<Rightarrow> turn_loop slap n (Suc (Suc turn)) g4)"
    if a: "0 < turn \<and> i = (turn - 1) mod n \<and> \<not> finished g"
  proof -
    from a body have "turn_body slap ((turn - 1) mod n) g = Inr after"
      by blast
    with a have first: "turn_loop slap n turn g = turn_loop slap n (Suc turn) after"
      by (subst turn_loop.simps) simp
    from a have "Suc (turn - 1) = turn"
      by simp
    then have "Suc i mod n = (Suc turn - 1) mod n"
      using a mod_Suc_eq [of "turn - 1" n] by simp
    then have "turn_loop slap n (Suc turn) after =
        (if finished after then Some (Inr ((Suc turn, winner after), after))
         else case turn_body slap (Suc i mod n) after of
                Inl e \<Rightarrow> Some (Inl e)
              | Inr g4 \<Rightarrow> turn_loop slap n (Suc (Suc turn)) g4)"
      by (subst turn_loop.simps) simp
    with first show ?thesis
      by simp
  qed
  show "turn_body slap c before = Inr ((play_card c before)\<lparr>challenger := Some c, chances := 1\<rparr>)"
    if "challenger before = None \<and> hands before ! c \<noteq> [] \<and> face (last (hands before ! c)) = Jack"
    using that by (simp add: turn_body_def Let_def)
qed

lemma rev_nth_0: "xs \<noteq> [] \<Longrightarrow> rev xs ! 0 = last xs"
  by (metis hd_conv_nth hd_rev rev_is_Nil_conv)

lemma resolve_arbiter: "resolve g = Inr g' \<Longrightarrow> arbiter g' = arbiter g"
  by (auto simp: resolve_def take_pile_def split: if_splits option.splits sum.splits)

text \<open>
  Claim C7. A hand that takes the pile, read from top to bottom, is the old hand
  followed by the pile reversed: the last card played lies next to the old bottom card
  and the first card of the pile is the new bottom card. This holds for the transfer
  after a slap and for the transfer that resolves a challenge.
\<close>

theorem pile_transfer_orientation:
  assumes "k < length (hands g)"
  shows "top_to_bottom (hands (take_pile k g) ! k) = top_to_bottom (hands g ! k) @ rev (pile g)
    \<and> pile (take_pile k g) = []
    \<and> (pile g \<noteq> [] \<longrightarrow>
         top_to_bottom (hands (take_pile k g) ! k) ! length (hands g ! k) = last (pile g)
         \<and> last (top_to_bottom (hands (take_pile k g) ! k)) = hd (pile g))
    \<and> (slappable (pile (play_card i g)) \<and> slap (arbiter g) = (slapper, a')
         \<and> py_index (length (hands g)) slapper = Inr k \<longrightarrow>
         (\<exists>g'. chance_card slap i g = Inr (True, g')
            \<and> top_to_bottom (hands g' ! k) =
                top_to_bottom (hands (play_card i g) ! k) @ rev (pile (play_card i g))))
    \<and> (chances g = 0 \<and> challenger g = Some k \<longrightarrow>
         (\<exists>g'. resolve g = Inr g'
            \<and> top_to_bottom (hands g' ! k) = top_to_bottom (hands g ! k) @ rev (pile g)))"
proof (intro conjI impI)
  show "top_to_bottom (hands (take_pile k g) ! k) = top_to_bottom (hands g ! k) @ rev (pile g)"
    using assms by (simp add: top_to_bottom_def)
  show "pile (take_pile k g) = []"
    by simp
  show "top_to_bottom (hands (take_pile k g) ! k) ! length (hands g ! k) = last (pile g)"
    if "pile g \<noteq> []"
    using assms that by (simp add: top_to_bottom_def nth_append rev_nth_0)
  show "last (top_to_bottom (hands (take_pile k g) ! k)) = hd (pile g)"
    if "pile g \<noteq> []"
    using assms that by (simp add: top_to_bottom_def last_rev)
  show "\<exists>g'. chance_card slap i g = Inr (True, g')
            \<and> top_to_bottom (hands g' ! k) =
                top_to_bottom (hands (play_card i g) ! k) @ rev (pile (play_card i g))"
    if "slappable (pile (play_card i g)) \<and> slap (arbiter g) = (slapper, a')
         \<and> py_index (length (hands g)) slapper = Inr k"
    using assms that
    by (simp add: chance_card_def Let_def top_to_bottom_def play_card_def)
  show "\<exists>g'. resolve g = Inr g'
            \<and> top_to_bottom (hands g' ! k) = top_to_bottom (hands g ! k) @ rev (pile g)"
    if "chances g = 0 \<and> challenger g = Some k"
    using assms that by (simp add: resolve_def top_to_bottom_def)
qed

text \<open>
  Claim C10. With no challenge open, a turn pushes one card and neither tests the pile
  nor calls the arbiter: the result is the same for every arbiter, the arbiter's state
  is unchanged and the card stays on the pile. A turn that changes the arbiter's state
  started in a challenge, with a card to play and a chance owed.
\<close>

theorem normal_play_never_slaps:
  "(challenger g = None \<longrightarrow>
      turn_body slap i g = turn_body slap' i g
      \<and> (\<exists>g'. turn_body slap i g = Inr g' \<and> arbiter g' = arbiter g
            \<and> (hands g ! i \<noteq> [] \<longrightarrow>
                 pile g' = pile g @ [last (hands g ! i)]
                 \<and> hands g' = (hands g)[i := butlast (hands g ! i)])))
   \<and> (turn_body slap i g = Inr g2 \<and> arbiter g2 \<noteq> arbiter g \<longrightarrow>
        challenger g \<noteq> None \<and> hands g ! i \<noteq> [] \<and> 0 < chances g)"
proof (intro conjI impI)
  assume "challenger g = None"
  then show "turn_body slap i g = turn_body slap' i g"
    by (simp add: turn_body_def)
  from \<open>challenger g = None\<close>
  show "\<exists>g'. turn_body slap i g = Inr g' \<and> arbiter g' = arbiter g
            \<and> (hands g ! i \<noteq> [] \<longrightarrow>
                 pile g' = pile g @ [last (hands g ! i)]
                 \<and> hands g' = (hands g)[i := butlast (hands g ! i)])"
    by (cases "royal (face (last (hands g ! i)))") (simp_all add: turn_body_def Let_def play_card_def)
next
  assume a: "turn_body slap i g = Inr g2 \<and> arbiter g2 \<noteq> arbiter g"
  show c: "challenger g \<noteq> None"
  proof
    assume "challenger g = None"
    with a show False
      by (cases "royal (face (last (hands g ! i)))")
        (auto simp add: turn_body_def Let_def play_card_def split: if_splits)
  qed
  show h: "hands g ! i \<noteq> []"
    using a by (auto simp add: turn_body_def)
  show "0 < chances g"
  proof (rule ccontr)
    assume "\<not> 0 < chances g"
    then have "challenge_loop slap i g = Inr g"
      by (subst challenge_loop.simps) simp
    with a c h have "resolve g = Inr g2"
      by (simp add: turn_body_def challenge_turn_def)
    with a show False
      by (simp add: resolve_arbiter)
  qed
qed

subsection \<open>Examples of single turns\<close>

theorem slap_interrupts_challenge_witness:
  "\<not> slappable (pile king_example @ [Card (Num 9) Diamonds])
   \<and> slappable (pile king_example @ [Card (Num 9) Diamonds, Card (Num 9) Hearts])
   \<and> turn_body (always 0) 1 king_example =
       Inr \<lparr>hands = [[Card (Num 2) Clubs, Card King Hearts, Card (Num 9) Diamonds,
                       Card (Num 9) Hearts, Card (Num 3) Clubs, Card (Num 7) Hearts],
                      [Card (Num 5) Spades]],
            pile = [], chances = 0, challenger = None, arbiter = ()\<rparr>
   \<and> royal (face (last (hands slap_example ! 1))) = Some 3
   \<and> turn_body (always 0) 1 slap_example =
       Inr \<lparr>hands = [[Card (Num 2) Clubs, Card King Hearts, Card King Diamonds,
                       Card (Num 3) Clubs, Card (Num 7) Hearts],
                      [Card (Num 5) Spades]],
            pile = [], chances = 0, challenger = None, arbiter = ()\<rparr>"
  using slap_interrupts_challenge [where i = 1 and g = king_example and c = 0
      and rest = "[Card (Num 5) Spades]" and x = "Card (Num 9) Hearts"
      and cs = "[Card (Num 9) Diamonds]"
      and slap = "always 0" and slapper = 0 and a' = "()" and k = 0]
    slap_interrupts_challenge [where i = 1 and g = slap_example and c = 0
      and rest = "[Card (Num 5) Spades]" and x = "Card King Diamonds" and cs = "[]"
      and slap = "always 0" and slapper = 0 and a' = "()" and k = 0]
  by (simp add: king_example_def slap_example_def always_def slappable_def py_index_def)

theorem royal_chance_card_takes_over_witness:
  "turn_body (always 0) 1 ace_example =
       Inr \<lparr>hands = [[Card (Num 3) Clubs], [Card (Num 8) Clubs]],
            pile = [Card Ace Clubs, Card (Num 5) Spades, Card Queen Diamonds], chances = 2,
            challenger = Some 1, arbiter = ()\<rparr>"
  using royal_chance_card_takes_over [where i = 1 and g = ace_example and c = 0
      and rest = "[Card (Num 8) Clubs]" and x = "Card Queen Diamonds"
      and cs = "[Card (Num 5) Spades]" and slap = "always 0" and v = 2]
  by (simp add: ace_example_def slappable_def)

theorem challenge_resolved_by_exhaustion_witness:
  "turn_body (always 1) 0 jack_start = Inr jack_example
   \<and> turn_body (always 1) 1 jack_example =
       Inr \<lparr>hands = [[Card Jack Clubs, Card (Num 9) Diamonds, Card (Num 3) Clubs],
                      [Card (Num 5) Spades]],
            pile = [], chances = 0, challenger = None, arbiter = ()\<rparr>"
  using challenge_resolved_by_exhaustion [where i = 1 and g = jack_example and c = 0
      and slap = "always 1" and rest = "[Card (Num 5) Spades]"
      and cs = "[Card (Num 9) Diamonds]" and before = jack_start
      and after = "\<lparr>hands = [[Card Jack Clubs, Card (Num 9) Diamonds, Card (Num 3) Clubs],
                      [Card (Num 5) Spades]],
            pile = [], chances = 0, challenger = None, arbiter = ()\<rparr>"]
  by (simp add: jack_example_def jack_start_def slappable_def play_card_def)

theorem pile_transfer_orientation_witness:
  "top_to_bottom (hands (take_pile 0 transfer_example) ! 0) =
     [Card (Num 4) Clubs, Card (Num 3) Clubs, Card (Num 9) Diamonds, Card Jack Clubs]
   \<and> (\<exists>g'. resolve transfer_example = Inr g'
         \<and> top_to_bottom (hands g' ! 0) =
             [Card (Num 4) Clubs, Card (Num 3) Clubs, Card (Num 9) Diamonds, Card Jack Clubs])"
  using pile_transfer_orientation [where k = 0 and g = transfer_example]
  by (simp add: transfer_example_def top_to_bottom_def)

theorem normal_play_never_slaps_witness:
  "slappable (pile normal_example @ [last (hands normal_example ! 0)])
   \<and> (\<exists>g'. turn_body (always 1) 0 normal_example = Inr g'
         \<and> pile g' = [Card (Num 7) Diamonds, Card (Num 7) Hearts]
         \<and> arbiter g' = arbiter normal_example)"
  using normal_play_never_slaps [where g = normal_example and i = 0 and slap = "always 1"
      and slap' = "always 1"]
  by (auto simp add: normal_example_def slappable_def)

subsection \<open>Card conservation\<close>

lemma mset_concat_update:
  "i < length xss \<Longrightarrow>
     mset (concat (xss[i := ys])) + mset (xss ! i) = mset (concat xss) + mset ys"
proof (induction xss arbitrary: i)
  case Nil
  then show ?case by simp
next
  case (Cons xs xss)
  show ?case
  proof (cases i)
    case 0
    then show ?thesis by simp
  next
    case (Suc j)
    with Cons.prems have "j < length xss" by simp
    from Cons.IH [OF this] Suc show ?thesis
      by (simp add: ac_simps)
  qed
qed

lemma mset_butlast_last: "xs \<noteq> [] \<Longrightarrow> mset (butlast xs) + {#last xs#} = mset xs"
  by (metis append_butlast_last_id mset.simps(1) mset_append mset.simps(2) add.commute add_mset_add_single union_mset_add_mset_right empty_neutral(2))

lemma cards_of_play_card:
  assumes "i < length (hands g)" and "hands g ! i \<noteq> []"
  shows "cards_of (play_card i g) = cards_of g"
proof -
  have "mset (concat ((hands g)[i := butlast (hands g ! i)])) + mset (hands g ! i) =
          mset (concat (hands g)) + mset (butlast (hands g ! i))"
    using assms(1) by (rule mset_concat_update)
  also have "mset (hands g ! i) = mset (butlast (hands g ! i)) + {#last (hands g ! i)#}"
    using assms(2) mset_butlast_last [of "hands g ! i"] by simp
  finally have "mset (concat ((hands g)[i := butlast (hands g ! i)])) + {#last (hands g ! i)#}
      = mset (concat (hands g))"
    by (simp add: ac_simps)
  then show ?thesis
    by (simp add: cards_of_def ac_simps)
qed

lemma cards_of_take_pile:
  assumes "k < length (hands g)"
  shows "cards_of (take_pile k g) = cards_of g"
proof -
  have "mset (concat ((hands g)[k := pile g @ hands g ! k])) + mset (hands g ! k) =
          mset (concat (hands g)) + mset (pile g @ hands g ! k)"
    using assms by (rule mset_concat_update)
  then have "mset (concat ((hands g)[k := pile g @ hands g ! k])) = mset (concat (hands g)) + mset (pile g)"
    by (simp add: ac_simps)
  then show ?thesis
    by (simp add: cards_of_def)
qed

lemma cards_of_fields [simp]:
  "cards_of (g\<lparr>chances := n\<rparr>) = cards_of g"
  "cards_of (g\<lparr>challenger := c\<rparr>) = cards_of g"
  "cards_of (g\<lparr>arbiter := a\<rparr>) = cards_of g"
  by (simp_all add: cards_of_def)

lemma length_hands_steps [simp]:
  "length (hands (play_card i g)) = length (hands g)"
  "length (hands (take_pile k g)) = length (hands g)"
  by simp_all

lemma chance_card_keeps:
  assumes "i < length (hands g)" and "hands g ! i \<noteq> []"
    and "chance_card slap i g = Inr (left, g')"
  shows "cards_of g' = cards_of g \<and> length (hands g') = length (hands g)"
proof (cases "slappable (pile g @ [last (hands g ! i)])")
  case True
  obtain slapper a' where s: "slap (arbiter g) = (slapper, a')"
    by (cases "slap (arbiter g)")
  with True assms(3) obtain k where k: "py_index (length (hands g)) slapper = Inr k"
    and g': "g' = (take_pile k ((play_card i g)\<lparr>chances := chances g - 1, arbiter := a'\<rparr>))\<lparr>chances := 0\<rparr>"
    by (auto simp: chance_card_def Let_def split: sum.splits)
  from k have "k < length (hands g)" by (rule py_index_range)
  then have "cards_of (take_pile k ((play_card i g)\<lparr>chances := chances g - 1, arbiter := a'\<rparr>))
      = cards_of ((play_card i g)\<lparr>chances := chances g - 1, arbiter := a'\<rparr>)"
    by (intro cards_of_take_pile) simp
  with g' assms(1,2) show ?thesis
    by (simp add: cards_of_play_card)
next
  case False
  with assms(3) have "g' = (play_card i g)\<lparr>chances := chances g - 1\<rparr>
      \<or> (\<exists>v. g' = (play_card i g)\<lparr>chances := chances g - 1, challenger := Some i, chances := v\<rparr>)"
    by (auto simp: chance_card_def Let_def split: option.splits)
  with assms(1,2) show ?thesis
    by (auto simp add: cards_of_play_card)
qed

lemma challenge_loop_keeps:
  "challenge_loop slap i g = Inr g' \<Longrightarrow>
     cards_of g' = cards_of g \<and> length (hands g') = length (hands g)"
proof (induction slap i g rule: challenge_loop.induct)
  case (1 slap i g)
  show ?case
  proof (cases "i < length (hands g) \<and> 0 < chances g \<and> hands g ! i \<noteq> []")
    case False
    with "1.prems" show ?thesis
      by (subst (asm) challenge_loop.simps) simp
  next
    case True
    from "1.prems" True obtain left g1 where step: "chance_card slap i g = Inr (left, g1)"
      by (subst (asm) challenge_loop.simps) (auto split: sum.splits)
    from True step have keep: "cards_of g1 = cards_of g \<and> length (hands g1) = length (hands g)"
      by (intro chance_card_keeps) simp_all
    show ?thesis
    proof (cases left)
      case True
      with "1.prems" \<open>i < length (hands g) \<and> 0 < chances g \<and> hands g ! i \<noteq> []\<close> step
      have "g' = g1"
        by (subst (asm) challenge_loop.simps) simp
      with keep show ?thesis by simp
    next
      case False
      with "1.prems" \<open>i < length (hands g) \<and> 0 < chances g \<and> hands g ! i \<noteq> []\<close> step
      have "challenge_loop slap i g1 = Inr g'"
        by (subst (asm) challenge_loop.simps) simp
      with "1.IH" [OF True step refl] False keep show ?thesis
        by simp
    qed
  qed
qed

lemma resolve_keeps:
  assumes "resolve g = Inr g'"
  shows "cards_of g' = cards_of g \<and> length (hands g') = length (hands g)"
proof (cases "chances g = 0")
  case False
  with assms show ?thesis by (simp add: resolve_def)
next
  case True
  with assms obtain c k where "challenger g = Some c"
    and k: "py_index (length (hands g)) (int c) = Inr k"
    and g': "g' = (take_pile k g)\<lparr>challenger := None\<rparr>"
    by (auto simp: resolve_def split: option.splits sum.splits)
  from k have "k < length (hands g)" by (rule py_index_range)
  with g' show ?thesis
    by (simp add: cards_of_take_pile)
qed

lemma turn_body_keeps:
  assumes "i < length (hands g)" and "turn_body slap i g = Inr g'"
  shows "cards_of g' = cards_of g \<and> length (hands g') = length (hands g)"
proof (cases "hands g ! i = []")
  case True
  with assms show ?thesis by (simp add: turn_body_def)
next
  case False
  note hand = False
  show ?thesis
  proof (cases "challenger g")
    case None
    with hand assms(2) have "g' = play_card i g
        \<or> (\<exists>v. g' = (play_card i g)\<lparr>challenger := Some i, chances := v\<rparr>)"
      by (auto simp: turn_body_def Let_def split: option.splits)
    with assms(1) hand show ?thesis
      by (auto simp add: cards_of_play_card)
  next
    case (Some c)
    with hand assms(2) obtain g2 where "challenge_loop slap i g = Inr g2" "resolve g2 = Inr g'"
      by (auto simp: turn_body_def challenge_turn_def split: sum.splits)
    then show ?thesis
      using challenge_loop_keeps resolve_keeps by metis
  qed
qed

lemma deal_loop_keeps:
  "i < length hs \<Longrightarrow>
     mset (concat (deal_loop cs hs i)) = mset cs + mset (concat hs)
     \<and> length (deal_loop cs hs i) = length hs"
proof (induction cs arbitrary: hs i)
  case Nil
  then show ?case by simp
next
  case (Cons c cs)
  let ?hs = "hs[i := hs ! i @ [c]]"
  from Cons.prems have "0 < length hs"
    by (cases hs) simp_all
  then have "Suc i mod length ?hs < length ?hs"
    by simp
  from Cons.IH [OF this]
  have "mset (concat (deal_loop (c # cs) hs i)) = mset cs + mset (concat ?hs)"
    and len: "length (deal_loop (c # cs) hs i) = length hs"
    by simp_all
  moreover have "mset (concat ?hs) + mset (hs ! i) = mset (concat hs) + mset (hs ! i @ [c])"
    using Cons.prems by (rule mset_concat_update)
  then have "mset (concat ?hs) = mset (concat hs) + {#c#}"
    by (simp add: ac_simps)
  ultimately show ?case
    by (simp add: ac_simps)
qed

lemma deal_keeps:
  assumes "0 < num_players"
  shows "mset (concat (deal shuffle deck num_players)) = mset (shuffle deck)
         \<and> length (deal shuffle deck num_players) = nat num_players"
proof -
  let ?hs = "replicate (nat num_players) ([] :: card list)"
  from assms have "0 < length ?hs" by simp
  from deal_loop_keeps [OF this, of "rev (shuffle deck)"] assms
  show ?thesis
    by (simp add: deal_def Let_def)
qed

lemma new_deck_distinct: "distinct new_deck \<and> length new_deck = 52"
  by (simp add: new_deck_def upt_rec [of 2] upt_rec [of 3] upt_rec [of 4] upt_rec [of 5] upt_rec [of 6] upt_rec [of 7] upt_rec [of 8] upt_rec [of 9] upt_rec [of 10] upt_rec [of 11])

lemma reach_keeps:
  assumes "reach slap n g0 s" and "0 < n" and "length (hands g0) = n"
  shows "cards_of (snd (snd s)) = cards_of g0 \<and> length (hands (snd (snd s))) = n"
  using assms
proof (induction rule: reach.induct)
  case start
  then show ?case by simp
next
  case (turn t g g')
  then have "(t - 1) mod n < length (hands g)" by simp
  from turn_body_keeps [OF this turn.hyps(3)] turn show ?case by simp
next
  case (enter t g)
  then show ?case by simp
next
  case (chance t g left g')
  then have "(t - 1) mod n < length (hands g)" by simp
  from chance_card_keeps [OF this chance.hyps(3,4)] chance show ?case by simp
qed

text \<open>
  Claim C3. In every state a game reaches after the deal (the start of each turn, the
  head of the challenge loop before each chance card, and the state after a slap or a
  royal leaves that loop), the cards of the hands and of the pile together are the
  cards of the new deck, and the new deck holds 52 cards without repetition. The
  shuffle is any function that returns the cards it is given in some order.
\<close>

theorem card_conservation:
  assumes "mset (shuffle new_deck) = mset new_deck" and "0 < num_players"
    and "reach slap (nat num_players) (initial_game shuffle a0 num_players) (t, ph, g)"
  shows "cards_of g = mset new_deck \<and> distinct new_deck \<and> length new_deck = 52"
proof -
  let ?g0 = "initial_game shuffle a0 num_players"
  from deal_keeps [OF assms(2), of shuffle new_deck] assms(1)
  have "cards_of ?g0 = mset new_deck" and "length (hands ?g0) = nat num_players"
    by (simp_all add: initial_game_def cards_of_def)
  moreover from assms(2) have "0 < nat num_players" by simp
  ultimately show ?thesis
    using reach_keeps [OF assms(3)] new_deck_distinct by simp
qed

subsection \<open>The end of a game\<close>

lemma fold_max_zeros: "(\<forall>x\<in>set xs. x = 0) \<Longrightarrow> fold max xs (a::nat) = a"
  by (induction xs arbitrary: a) simp_all

lemma concat_empties: "(\<forall>x\<in>set xss. x = []) \<Longrightarrow> concat xss = []"
  by (induction xss) simp_all

lemma finished_split:
  assumes "finished g"
  obtains us h vs where "hands g = us @ h # vs" and "h \<noteq> []"
    and "\<forall>u\<in>set us. u = []" and "\<forall>v\<in>set vs. v = []"
proof -
  from assms obtain h where f: "filter (\<lambda>hand. length hand > 0) (hands g) = [h]"
    by (auto simp: finished_def length_Suc_conv)
  then obtain us vs where "hands g = us @ h # vs" "\<forall>u\<in>set us. \<not> length u > 0"
    "length h > 0" "[] = filter (\<lambda>hand. length hand > 0) vs"
    unfolding filter_eq_Cons_iff by blast
  then show ?thesis
    using that [of us h vs] by (auto simp: filter_empty_conv dest: sym)
qed

lemma finished_winner:
  assumes "finished g"
  shows "winner g < length (hands g) \<and> hands g ! winner g \<noteq> []
    \<and> (\<forall>k < length (hands g). k \<noteq> winner g \<longrightarrow> hands g ! k = [])
    \<and> mset (hands g ! winner g) + mset (pile g) = cards_of g"
proof -
  from assms obtain us h vs where split: "hands g = us @ h # vs" and h: "h \<noteq> []"
    and us: "\<forall>u\<in>set us. u = []" and vs: "\<forall>v\<in>set vs. v = []"
    by (rule finished_split)
  have "fold max (map length (hands g)) 0 = length h"
    using us vs by (simp add: split fold_max_zeros)
  moreover have "takeWhile (\<lambda>x. x \<noteq> length h) (map length us @ length h # map length vs)
      = map length us"
    using us h by (subst takeWhile_append2) auto
  ultimately have w: "winner g = length us"
    by (simp add: winner_def argmax_def split)
  have others: "hands g ! k = []" if "k < length (hands g)" "k \<noteq> length us" for k
  proof (cases "k < length us")
    case True
    then show ?thesis using us by (simp add: split nth_append)
  next
    case False
    with that have "length us < k" by simp
    then obtain j where j: "k = Suc (length us + j)"
      using less_imp_Suc_add by blast
    with that(1) have "j < length vs" "hands g ! k = vs ! j"
      by (simp_all add: split nth_append)
    with vs show ?thesis by simp
  qed
  have "concat (hands g) = h"
    using us vs by (simp add: split concat_empties)
  with w others h show ?thesis
    by (simp add: split cards_of_def)
qed

lemma turn_loop_halts:
  fixes slap :: "'s slap"
  assumes "turn_loop slap n t g = Some (Inr ((t', w), gf))"
    and "reach slap n g0 (t, Turn_start, g)"
  shows "reach slap n g0 (t', Turn_start, gf) \<and> finished gf \<and> w = winner gf"
proof -
  let ?P = "\<lambda>(s :: 's slap) m t g (r :: error + (nat \<times> nat) \<times> 's game).
              \<forall>t' w gf. r = Inr ((t', w), gf) \<longrightarrow> reach s m g0 (t, Turn_start, g) \<longrightarrow>
              reach s m g0 (t', Turn_start, gf) \<and> finished gf \<and> w = winner gf"
  have "?P slap n t g (Inr ((t', w), gf))"
  proof (rule turn_loop.raw_induct [where P = ?P, OF _ assms(1)])
    fix loop :: "'s slap \<Rightarrow> nat \<Rightarrow> nat \<Rightarrow> 's game \<Rightarrow> (error + (nat \<times> nat) \<times> 's game) option"
      and s m turn g r
    assume IH: "\<And>s m turn g r. loop s m turn g = Some r \<Longrightarrow> ?P s m turn g r"
      and body: "(if finished g then Some (Inr ((turn, winner g), g))
          else case turn_body s ((turn - 1) mod m) g of
                 Inl e \<Rightarrow> Some (Inl e)
               | Inr g' \<Rightarrow> loop s m (Suc turn) g') = Some r"
    show "?P s m turn g r"
    proof (cases "finished g")
      case True
      with body show ?thesis by auto
    next
      case False
      show ?thesis
      proof (cases "turn_body s ((turn - 1) mod m) g")
        case (Inl e)
        with False body show ?thesis by auto
      next
        case (Inr g')
        with False body have "loop s m (Suc turn) g' = Some r" by simp
        from IH [OF this] reach.turn [OF _ False Inr] show ?thesis
          by blast
      qed
    qed
  qed
  with assms(2) show ?thesis
    by blast
qed

subsection \<open>A game of seventeen turns\<close>

lemma replicate_2: "replicate 2 x = [x, x]"
  by (simp add: numeral_2_eq_2)

lemma upt_2_11: "[2 ..< 11] = [2, 3, 4, 5, 6, 7, 8, 9, 10 :: nat]"
  by (simp add: upt_rec [of 2] upt_rec [of 3] upt_rec [of 4] upt_rec [of 5] upt_rec [of 6]
      upt_rec [of 7] upt_rec [of 8] upt_rec [of 9] upt_rec [of 10] upt_rec [of 11])

lemma short_shuffle_distinct: "distinct (short_shuffle deck)"
  by (simp add: short_shuffle_def)

lemma short_shuffle_set: "set (short_shuffle deck) = set new_deck"
  by (simp add: set_eq_subset short_shuffle_def new_deck_def upt_2_11)

lemma short_shuffle_perm: "mset (short_shuffle new_deck) = mset new_deck"
  using set_eq_iff_mset_eq_distinct [OF short_shuffle_distinct conjunct1 [OF new_deck_distinct]]
    short_shuffle_set
  by blast

lemma short_deal:
  "deal short_shuffle new_deck 2 =
     [hands short_second ! 0 @ [Card Ace Spades], hands short_second ! 1]"
  by (simp add: deal_def short_shuffle_def short_second_def replicate_2)

lemma short_initial:
  "initial_game short_shuffle () 2 =
     \<lparr>hands = [hands short_second ! 0 @ [Card Ace Spades], hands short_second ! 1],
      pile = [], chances = 0, challenger = None, arbiter = ()\<rparr>"
  by (simp add: initial_game_def short_deal)

lemma short_not_finished: "\<not> finished (initial_game short_shuffle () 2)"
  unfolding short_initial by (simp add: finished_def short_second_def)

lemma short_first_turn:
  "turn_body (always 0) 0 (initial_game short_shuffle () 2) = Inr short_second"
  unfolding short_initial
  by (simp add: short_second_def turn_body_def Let_def play_card_def)

lemma short_run:
  "turn_loop (always 0) 2 1 (initial_game short_shuffle () 2) = Some (Inr ((17, 0), short_final))"
  unfolding short_initial
  by (simp add: short_second_def short_final_def turn_loop.simps finished_def winner_def argmax_def
       turn_body_def Let_def play_card_def challenge_turn_def
       chance_card_def slappable_def resolve_def take_pile_def py_index_def
       challenge_loop.simps)

theorem card_conservation_witness:
  "reach (always 0) (nat 2) (initial_game short_shuffle () 2) (Suc 1, Turn_start, short_second)
   \<and> cards_of short_second = mset new_deck"
proof -
  have n: "(1 - 1) mod nat 2 = (0::nat)"
    by simp
  have r: "reach (always 0) (nat 2) (initial_game short_shuffle () 2) (Suc 1, Turn_start, short_second)"
    by (rule reach.turn [OF reach.start short_not_finished]) (simp only: n short_first_turn)
  have "(0::int) < 2"
    by simp
  from card_conservation [OF short_shuffle_perm this r] r show ?thesis
    by blast
qed

text \<open>
  Claim C2, as the code has it. When the game returns \<open>(t, w)\<close>, the hand of player
  \<open>w\<close> is the only hand that is not empty, and the cards of that hand together with
  the cards still on the pile are the 52 cards of the deck. The winner need not hold all
  52 cards: the pile is not handed over when the game ends.
\<close>

theorem winner_at_halt:
  assumes "mset (shuffle new_deck) = mset new_deck" and "0 < num_players"
    and "turn_loop slap (nat num_players) 1 (initial_game shuffle a0 num_players)
           = Some (Inr ((t, w), gf))"
  shows "w < length (hands gf) \<and> hands gf ! w \<noteq> []
    \<and> (\<forall>k < length (hands gf). k \<noteq> w \<longrightarrow> hands gf ! k = [])
    \<and> mset (hands gf ! w) + mset (pile gf) = mset new_deck
    \<and> simulate_game shuffle slap a0 num_players = Some (Inr (Some (t, w)))"
proof -
  let ?g0 = "initial_game shuffle a0 num_players"
  from turn_loop_halts [OF assms(3) reach.start]
  have r: "reach slap (nat num_players) ?g0 (t, Turn_start, gf)"
    and f: "finished gf" and w: "w = winner gf"
    by blast+
  from deal_keeps [OF assms(2), of shuffle new_deck] assms(1)
  have "cards_of ?g0 = mset new_deck" and "length (hands ?g0) = nat num_players"
    by (simp_all add: initial_game_def cards_of_def)
  with reach_keeps [OF r] assms(2) have "cards_of gf = mset new_deck"
    by simp
  with finished_winner [OF f] w assms(2,3) show ?thesis
    by (simp add: simulate_game_def)
qed

theorem winner_at_halt_witness:
  "hands short_final ! 0 \<noteq> []
   \<and> mset (hands short_final ! 0) + mset (pile short_final) = mset new_deck
   \<and> simulate_game short_shuffle (always 0) () 2 = Some (Inr (Some (17, 0)))"
proof -
  have run: "turn_loop (always 0) (nat 2) 1 (initial_game short_shuffle () 2)
      = Some (Inr ((17, 0), short_final))"
    using short_run by simp
  have "(0::int) < 2"
    by simp
  from winner_at_halt [OF short_shuffle_perm this run] show ?thesis
    by blast
qed

text \<open>
  The game dealt by \<open>short_shuffle\<close> returns at turn 17 with player 0 as the winner,
  who holds 50 cards; the other two lie on the pile.
\<close>

lemma short_final_sizes:
  "length (hands short_final ! 0) = 50 \<and> hands short_final ! 1 = []
   \<and> pile short_final = [Card King Clubs, Card (Num 9) Hearts]"
  by (simp add: short_final_def)

theorem winner_holds_all_counterexample:
  "turn_loop (always 0) 2 1 (initial_game short_shuffle () 2) = Some (Inr ((17, 0), short_final))
   \<and> length (hands short_final ! 0) = 50
   \<and> hands short_final ! 1 = []
   \<and> pile short_final = [Card King Clubs, Card (Num 9) Hearts]"
  using short_run short_final_sizes by blast

subsection \<open>Player counts and arbiter answers out of range\<close>







end
